theory Spec2Isabelle
  imports Complex_Main "HOL-Library.Sublist" "HOL-Library.AList"
begin

section \<open>Skip-gram data pipeline: Python primitives\<close>

text \<open>
  The notebooks are Python. Lists are HOL lists, Python integers are \<open>int\<close>, and an
  exception is the left injection of a sum type.
\<close>

datatype py_error = ValueError | ZeroDivisionError | KeyError

text \<open>
  \<^verbatim>\<open>xs[a:b]\<close>: a negative bound counts from the end, and both bounds are clamped to
  \<open>0 .. len(xs)\<close>; the slice is empty when the lower bound is not below the upper one.
\<close>

definition py_slice :: "'a list \<Rightarrow> int \<Rightarrow> int \<Rightarrow> 'a list" where
  "py_slice xs a b =
     (let n = int (length xs);
          lo = (if a < 0 then max 0 (a + n) else min a n);
          hi = (if b < 0 then max 0 (b + n) else min b n)
      in take (nat (hi - lo)) (drop (nat lo) xs))"

text \<open>
  \<^verbatim>\<open>range(0, stop, step)\<close> for a non-zero step, as the list of its values.
\<close>

definition py_range :: "int \<Rightarrow> int \<Rightarrow> int list" where
  "py_range stop step =
     (if 0 < step then map (\<lambda>i. int i * step) [0..<nat ((stop + step - 1) div step)]
      else map (\<lambda>i. int i * step) [0..<nat ((- stop - step - 1) div (- step))])"

text \<open>
  \<^verbatim>\<open>np.random.randint(low, high)\<close> draws a 64-bit integer of \<open>[low, high)\<close>. It raises
  ValueError when the bounds leave the 64-bit range (\<open>low < -2^63\<close> or \<open>high > 2^63\<close>) and when
  \<open>low >= high\<close>. The value drawn is the third argument, and the function is the identity on
  it; a statement that depends on the value drawn assumes that it lies in the range.
\<close>

definition randint :: "int \<Rightarrow> int \<Rightarrow> int \<Rightarrow> py_error + int" where
  "randint low high r =
     (if low < - (2 ^ 63) \<or> 2 ^ 63 < high then Inl ValueError
      else if low \<ge> high then Inl ValueError
      else Inr r)"

text \<open>
  The window sizes for which the draw \<^verbatim>\<open>np.random.randint(1, window_size+1)\<close> of
  \<open>get_target\<close> does not raise.
\<close>

definition sampler_ok :: "int \<Rightarrow> bool" where
  "sampler_ok window_size = (1 \<le> window_size \<and> window_size < 2 ^ 63)"

section \<open>Windowed target sampler\<close>

text \<open>
  \<^verbatim>\<open>
  def get_target(words, idx, window_size=5):
      R = np.random.randint(1, window_size+1)
      first = np.where ((idx-R)>0, idx - R, 3)
      List = words[first: idx] + words[idx + 1 : idx+R+1]
      return (List)
  \<close>
  The last argument of the model is the value the random generator returns;
  \<open>target_window\<close> is the body of the function after the draw.
\<close>

definition target_window :: "'a list \<Rightarrow> int \<Rightarrow> int \<Rightarrow> 'a list" where
  "target_window words idx R =
     (let first = (if idx - R > 0 then idx - R else 3)
      in py_slice words first idx @ py_slice words (idx + 1) (idx + R + 1))"

definition get_target :: "'a list \<Rightarrow> int \<Rightarrow> int \<Rightarrow> int \<Rightarrow> py_error + 'a list" where
  "get_target words idx window_size r =
     (case randint 1 (window_size + 1) r of
        Inl e \<Rightarrow> Inl e
      | Inr R \<Rightarrow> Inr (target_window words idx R))"

text \<open>
  The window as the notebook's text describes it: \<open>R\<close> words from the history and \<open>R\<close>
  words from the future of position \<open>idx\<close>, that is the tokens at positions
  \<open>max(0, idx-R) .. idx-1\<close> followed by those at \<open>idx+1 .. min(len-1, idx+R)\<close>.
\<close>

definition surrounding_tokens :: "'a list \<Rightarrow> nat \<Rightarrow> nat \<Rightarrow> 'a list" where
  "surrounding_tokens ws idx R =
     map ((!) ws) ([idx - R..<idx] @ [idx + 1..<min (length ws) (idx + R + 1)])"

section \<open>Batch generator\<close>

text \<open>
  \<^verbatim>\<open>
  def get_batches(words, batch_size, window_size=5):
      n_batches = len(words)//batch_size
      words = words[:n_batches*batch_size]
      for idx in range(0, len(words), batch_size):
          x, y = [], []
          batch = words[idx:idx+batch_size]
          for ii in range(len(batch)):
              batch_x = batch[ii]
              batch_y = get_target(batch, ii, window_size)
              y.extend(batch_y)
              x.extend([batch_x]*len(batch_y))
          yield x, y
  \<close>
  The random generator is a sequence \<open>rs\<close> of drawn values and the number \<open>k\<close> of draws
  made so far; every call of \<open>get_target\<close> consumes one draw. The generator is modelled by
  the list of all the batches it yields, or the exception that ends it (the only exception of
  the loop is the ValueError of a draw when \<open>sampler_ok window_size\<close> does not
  hold, which the first call of the first batch already raises).
\<close>

type_synonym draws = "nat \<Rightarrow> int"

fun expand_batch ::
  "'a list \<Rightarrow> int \<Rightarrow> draws \<Rightarrow> nat \<Rightarrow> nat list \<Rightarrow> 'a list \<times> 'a list
     \<Rightarrow> py_error + (('a list \<times> 'a list) \<times> nat)" where
  "expand_batch batch window_size rs k [] (x, y) = Inr ((x, y), k)"
| "expand_batch batch window_size rs k (ii # iis) (x, y) =
     (let batch_x = batch ! ii in
      case get_target batch (int ii) window_size (rs k) of
        Inl e \<Rightarrow> Inl e
      | Inr batch_y \<Rightarrow>
          expand_batch batch window_size rs (Suc k) iis
            (x @ replicate (length batch_y) batch_x, y @ batch_y))"

fun batches_loop ::
  "'a list \<Rightarrow> int \<Rightarrow> int \<Rightarrow> draws \<Rightarrow> nat \<Rightarrow> int list
     \<Rightarrow> py_error + ('a list \<times> 'a list) list" where
  "batches_loop words batch_size window_size rs k [] = Inr []"
| "batches_loop words batch_size window_size rs k (idx # idxs) =
     (let batch = py_slice words idx (idx + batch_size) in
      case expand_batch batch window_size rs k [0..<length batch] ([], []) of
        Inl e \<Rightarrow> Inl e
      | Inr (xy, k') \<Rightarrow>
          (case batches_loop words batch_size window_size rs k' idxs of
             Inl e \<Rightarrow> Inl e
           | Inr rest \<Rightarrow> Inr (xy # rest)))"

definition get_batches ::
  "'a list \<Rightarrow> int \<Rightarrow> int \<Rightarrow> draws \<Rightarrow> py_error + ('a list \<times> 'a list) list" where
  "get_batches words batch_size window_size rs =
     (if batch_size = 0 then Inl ZeroDivisionError
      else
        let n_batches = int (length words) div batch_size;
            words' = py_slice words 0 (n_batches * batch_size)
        in batches_loop words' batch_size window_size rs 0
             (py_range (int (length words')) batch_size))"

text \<open>
  The (center, context) pairs of one chunk, as the description of the generator states them:
  for each position \<open>ii\<close> of the chunk in order, the center token repeated once for each
  context token of its window. Draw number \<open>k + ii\<close> serves position \<open>ii\<close>.
\<close>

definition centre_context_pairs :: "'a list \<Rightarrow> draws \<Rightarrow> nat \<Rightarrow> 'a list \<times> 'a list" where
  "centre_context_pairs chunk rs k =
     (concat (map (\<lambda>ii. replicate (length (target_window chunk (int ii) (rs (k + ii)))) (chunk ! ii))
                [0..<length chunk]),
      concat (map (\<lambda>ii. target_window chunk (int ii) (rs (k + ii))) [0..<length chunk]))"

section \<open>Dictionaries and counters\<close>

text \<open>
  A Python dictionary keeps its keys in insertion order, and the code iterates over
  dictionaries, so a dictionary is an association list with distinct keys in insertion order:
  \<^verbatim>\<open>d[k] = v\<close> is \<open>AList.update k v d\<close> (overwrite in place, or append), \<^verbatim>\<open>d[k]\<close> raises KeyError
  for a missing key, and a dictionary comprehension stores its pairs one after the other.
\<close>

type_synonym ('k, 'v) dict = "('k \<times> 'v) list"

definition dict_get :: "('k, 'v) dict \<Rightarrow> 'k \<Rightarrow> py_error + 'v" where
  "dict_get d k = (case map_of d k of None \<Rightarrow> Inl KeyError | Some v \<Rightarrow> Inr v)"

definition dict_of :: "('k \<times> 'v) list \<Rightarrow> ('k, 'v) dict" where
  "dict_of kvs = foldl (\<lambda>d (k, v). AList.update k v d) [] kvs"

text \<open>
  \<^verbatim>\<open>Counter(words)\<close> counts each element: for every element in order,
  \<^verbatim>\<open>self[elem] = self.get(elem, 0) + 1\<close>. Reading a counter at a missing key gives 0.
\<close>

definition counter_get :: "('k, nat) dict \<Rightarrow> 'k \<Rightarrow> nat" where
  "counter_get cs k = (case map_of cs k of None \<Rightarrow> 0 | Some c \<Rightarrow> c)"

definition Counter :: "'k list \<Rightarrow> ('k, nat) dict" where
  "Counter ws = foldl (\<lambda>cs w. AList.update w (counter_get cs w + 1) cs) [] ws"

section \<open>Text preprocessor\<close>

text \<open>
  Strings are lists of characters, and a character is a code point below 256; text with
  code points from 256 on is outside the model. \<^verbatim>\<open>str.lower\<close> maps \<open>A .. Z\<close> (65 to 90) and the
  capital letters 192 to 222, the multiplication sign 215 apart, to the code point 32 above
  and leaves every other character alone. The whitespace of \<^verbatim>\<open>str.split()\<close> is the codes 9 to
  13, 28 to 32, 133 and 160.
\<close>

definition lower_char :: "char \<Rightarrow> char" where
  "lower_char c =
     (let n = (of_char c :: nat)
      in if (65 \<le> n \<and> n \<le> 90) \<or> (192 \<le> n \<and> n \<le> 222 \<and> n \<noteq> 215) then char_of (n + 32)
         else c)"

definition lower :: "string \<Rightarrow> string" where
  "lower text = map lower_char text"

definition is_space :: "char \<Rightarrow> bool" where
  "is_space c =
     (let n = (of_char c :: nat)
      in (9 \<le> n \<and> n \<le> 13) \<or> (28 \<le> n \<and> n \<le> 32) \<or> n = 133 \<or> n = 160)"

text \<open>
  \<^verbatim>\<open>text.replace(old, new)\<close>: the occurrences of \<open>old\<close> are found from left to right and do
  not overlap. For the empty pattern Python inserts \<open>new\<close> before every character and at the end.
\<close>

function replace :: "string \<Rightarrow> string \<Rightarrow> string \<Rightarrow> string" where
  "replace old new text =
     (if old = [] then new @ concat (map (\<lambda>c. c # new) text)
      else if text = [] then []
      else if prefix old text then new @ replace old new (drop (length old) text)
      else hd text # replace old new (tl text))"
  by pat_completeness auto
termination
  by (relation "measure (\<lambda>(old, new, text). length text)") auto

declare replace.simps [simp del]

text \<open>
  \<^verbatim>\<open>text.split()\<close>: the maximal runs of non-whitespace characters, in order. \<open>cur\<close> is the
  word read so far.
\<close>

fun split_words :: "string \<Rightarrow> string \<Rightarrow> string list" where
  "split_words cur [] = (if cur = [] then [] else [cur])"
| "split_words cur (c # cs) =
     (if is_space c then (if cur = [] then split_words [] cs else cur # split_words [] cs)
      else split_words (cur @ [c]) cs)"

definition split :: "string \<Rightarrow> string list" where
  "split text = split_words [] text"

text \<open>
  \<^verbatim>\<open>
  def preprocess(text):
      text = text.lower()
      text = text.replace('.', ' <PERIOD> ')
      text = text.replace(',', ' <COMMA> ')
      text = text.replace('"', ' <QUOTATION_MARK> ')
      text = text.replace(';', ' <SEMICOLON> ')
      text = text.replace('!', ' <EXCLAMATION_MARK> ')
      text = text.replace('?', ' <QUESTION_MARK> ')
      text = text.replace('(', ' <LEFT_PAREN> ')
      text = text.replace(')', ' <RIGHT_PAREN> ')
      text = text.replace('--', ' <HYPHENS> ')
      text = text.replace('?', ' <QUESTION_MARK> ')
      text = text.replace(':', ' <COLON> ')
      words = text.split()
      word_counts = Counter(words)
      trimmed_words = [word for word in words if word_counts[word] > 5]
      return trimmed_words
  \<close>
  \<open>replace_punctuation\<close> is the function up to the last \<^verbatim>\<open>replace\<close>, \<open>tokenize\<close> up to the
  \<^verbatim>\<open>split\<close>.
\<close>

definition replace_punctuation :: "string \<Rightarrow> string" where
  "replace_punctuation text0 =
     (let text = lower text0;
          text = replace ''.'' '' <PERIOD> '' text;
          text = replace '','' '' <COMMA> '' text;
          text = replace [CHR 0x22] '' <QUOTATION_MARK> '' text;
          text = replace '';'' '' <SEMICOLON> '' text;
          text = replace ''!'' '' <EXCLAMATION_MARK> '' text;
          text = replace ''?'' '' <QUESTION_MARK> '' text;
          text = replace ''('' '' <LEFT_PAREN> '' text;
          text = replace '')'' '' <RIGHT_PAREN> '' text;
          text = replace ''--'' '' <HYPHENS> '' text;
          text = replace ''?'' '' <QUESTION_MARK> '' text;
          text = replace '':'' '' <COLON> '' text
      in text)"

definition tokenize :: "string \<Rightarrow> string list" where
  "tokenize text = split (replace_punctuation text)"

definition preprocess :: "string \<Rightarrow> string list" where
  "preprocess text =
     (let words = tokenize text;
          word_counts = Counter words;
          trimmed_words = filter (\<lambda>word. counter_get word_counts word > 5) words
      in trimmed_words)"

text \<open>
  The replacement as the description of the preprocessor states it, in one pass from left
  to right: each punctuation mark becomes its sentinel token surrounded by spaces.
\<close>

definition sentinel :: "char \<Rightarrow> string option" where
  "sentinel c =
     (if c = CHR ''.'' then Some '' <PERIOD> ''
      else if c = CHR '','' then Some '' <COMMA> ''
      else if c = CHR 0x22 then Some '' <QUOTATION_MARK> ''
      else if c = CHR '';'' then Some '' <SEMICOLON> ''
      else if c = CHR ''!'' then Some '' <EXCLAMATION_MARK> ''
      else if c = CHR ''?'' then Some '' <QUESTION_MARK> ''
      else if c = CHR ''('' then Some '' <LEFT_PAREN> ''
      else if c = CHR '')'' then Some '' <RIGHT_PAREN> ''
      else if c = CHR '':'' then Some '' <COLON> ''
      else None)"

fun sentinel_pass :: "string \<Rightarrow> string" where
  "sentinel_pass [] = []"
| "sentinel_pass [c] = (case sentinel c of Some s \<Rightarrow> s | None \<Rightarrow> [c])"
| "sentinel_pass (c # d # cs) =
     (case sentinel c of
        Some s \<Rightarrow> s @ sentinel_pass (d # cs)
      | None \<Rightarrow>
          if c = CHR ''-'' \<and> d = CHR ''-'' then '' <HYPHENS> '' @ sentinel_pass cs
          else c # sentinel_pass (d # cs))"

text \<open>
  The two halves of the replacement chain: the eight single-character marks that come
  first, and the last three replacements.
\<close>

definition single_marks :: "string \<Rightarrow> string" where
  "single_marks text0 =
     (let text = replace ''.'' '' <PERIOD> '' text0;
          text = replace '','' '' <COMMA> '' text;
          text = replace [CHR 0x22] '' <QUOTATION_MARK> '' text;
          text = replace '';'' '' <SEMICOLON> '' text;
          text = replace ''!'' '' <EXCLAMATION_MARK> '' text;
          text = replace ''?'' '' <QUESTION_MARK> '' text;
          text = replace ''('' '' <LEFT_PAREN> '' text;
          text = replace '')'' '' <RIGHT_PAREN> '' text
      in text)"

definition late_marks :: "string \<Rightarrow> string" where
  "late_marks text0 =
     (let text = replace ''--'' '' <HYPHENS> '' text0;
          text = replace ''?'' '' <QUESTION_MARK> '' text;
          text = replace '':'' '' <COLON> '' text
      in text)"

definition punctuation :: "char set" where
  "punctuation = {CHR ''.'', CHR '','', CHR 0x22, CHR '';'', CHR ''!'', CHR ''?'', CHR ''('',
                  CHR '')'', CHR '':''}"

section \<open>Vocabulary builder\<close>

text \<open>
  \<^verbatim>\<open>
  def create_lookup_tables(words):
      word_counts = Counter(words)
      sorted_vocab = sorted(word_counts, key=word_counts.get, reverse=True)
      int_to_vocab = {ii: word for ii, word in enumerate(sorted_vocab)}
      vocab_to_int = {word: ii for ii, word in int_to_vocab.items()}
      return vocab_to_int, int_to_vocab
  \<close>
  \<^verbatim>\<open>sorted(..., reverse=True)\<close> is the stable sort by descending key: elements with equal keys
  keep their order. Iterating a dictionary gives its keys in insertion order.
\<close>

definition sorted_reverse :: "('a \<Rightarrow> nat) \<Rightarrow> 'a list \<Rightarrow> 'a list" where
  "sorted_reverse key xs = sort_key (\<lambda>x. - int (key x)) xs"

definition create_lookup_tables :: "'a list \<Rightarrow> ('a, nat) dict \<times> (nat, 'a) dict" where
  "create_lookup_tables words =
     (let word_counts = Counter words;
          sorted_vocab = sorted_reverse (counter_get word_counts) (map fst word_counts);
          int_to_vocab = dict_of (enumerate 0 sorted_vocab);
          vocab_to_int = dict_of (map (\<lambda>(ii, word). (word, ii)) int_to_vocab)
      in (vocab_to_int, int_to_vocab))"

text \<open>
  The vocabulary in the order of its ids: the distinct words in order of first occurrence,
  stably sorted by descending number of occurrences.
\<close>

definition vocab_order :: "'a list \<Rightarrow> 'a list" where
  "vocab_order words = sort_key (\<lambda>x. - int (count_list words x)) (map fst (Counter words))"

section \<open>Subsampler\<close>

text \<open>
  \<^verbatim>\<open>
  threshold = 1e-5
  word_counts = Counter(int_words)
  total_count = len(int_words)
  frequency = {word: count/total_count for word, count in word_counts.items()}
  p_drop = {word: 1 - np.sqrt(threshold / frequency[word]) for word in word_counts}
  train_words = [word for word in int_words if random.random() < (1 - p_drop[word])]
  \<close>
  The model is the computation of \<open>train_words\<close>. The cell also prints the first item of
  \<open>word_counts\<close> before it subsamples, which is output only and is not modelled; on an empty
  \<open>int_words\<close> that print raises IndexError, so the cell as a whole produces \<open>train_words\<close>
  only for a non-empty list. Floating-point numbers are modelled by real numbers. The values that \<^verbatim>\<open>random.random()\<close>
  returns are a sequence \<open>u\<close>; the word at position \<open>k\<close> consumes draw \<open>k\<close>. \<open>traverse\<close> is a
  comprehension whose element expression can raise: the first exception ends it.
\<close>

definition threshold :: real where
  "threshold = 1 / 100000"

definition truediv :: "real \<Rightarrow> real \<Rightarrow> py_error + real" where
  "truediv a b = (if b = 0 then Inl ZeroDivisionError else Inr (a / b))"

fun traverse :: "('a \<Rightarrow> py_error + 'b) \<Rightarrow> 'a list \<Rightarrow> py_error + 'b list" where
  "traverse f [] = Inr []"
| "traverse f (x # xs) =
     (case f x of
        Inl e \<Rightarrow> Inl e
      | Inr y \<Rightarrow> (case traverse f xs of Inl e \<Rightarrow> Inl e | Inr ys \<Rightarrow> Inr (y # ys)))"

fun keep_words :: "('a, real) dict \<Rightarrow> (nat \<Rightarrow> real) \<Rightarrow> nat \<Rightarrow> 'a list \<Rightarrow> py_error + 'a list" where
  "keep_words p_drop u k [] = Inr []"
| "keep_words p_drop u k (word # int_words) =
     (case dict_get p_drop word of
        Inl e \<Rightarrow> Inl e
      | Inr p \<Rightarrow>
          (case keep_words p_drop u (Suc k) int_words of
             Inl e \<Rightarrow> Inl e
           | Inr rest \<Rightarrow> Inr (if u k < 1 - p then word # rest else rest)))"

definition subsample :: "'a list \<Rightarrow> (nat \<Rightarrow> real) \<Rightarrow> py_error + 'a list" where
  "subsample int_words u =
     (let word_counts = Counter int_words;
          total_count = length int_words
      in case traverse (\<lambda>(word, count).
                 case truediv (real count) (real total_count) of
                   Inl e \<Rightarrow> Inl e
                 | Inr f \<Rightarrow> Inr (word, f)) word_counts of
           Inl e \<Rightarrow> Inl e
         | Inr frequency \<Rightarrow>
             (case traverse (\<lambda>word.
                      case dict_get (dict_of frequency) word of
                        Inl e \<Rightarrow> Inl e
                      | Inr f \<Rightarrow>
                          (case truediv threshold f of
                             Inl e \<Rightarrow> Inl e
                           | Inr q \<Rightarrow> Inr (word, 1 - sqrt q))) (map fst word_counts) of
                Inl e \<Rightarrow> Inl e
              | Inr p_drop \<Rightarrow> keep_words (dict_of p_drop) u 0 int_words))"

section \<open>Counters and dictionaries: basic facts\<close>

lemma update_fresh:
  "k \<notin> fst ` set d \<Longrightarrow> AList.update k v d = d @ [(k, v)]"
  by (induction d) auto

lemma counter_get_update:
  "counter_get (AList.update w v cs) k = (if k = w then v else counter_get cs k)"
  by (simp add: counter_get_def update_conv')

lemma counter_foldl_get:
  "counter_get (foldl (\<lambda>cs w. AList.update w (counter_get cs w + 1) cs) cs ws) k
     = counter_get cs k + count_list ws k"
  by (induction ws arbitrary: cs) (simp_all add: counter_get_update)

lemma counter_foldl_keys:
  "fst ` set (foldl (\<lambda>cs w. AList.update w (counter_get cs w + 1) cs) cs ws)
     = fst ` set cs \<union> set ws"
  by (induction ws arbitrary: cs) (simp_all add: dom_update)

lemma counter_foldl_distinct:
  "distinct (map fst cs) \<Longrightarrow>
   distinct (map fst (foldl (\<lambda>cs w. AList.update w (counter_get cs w + 1) cs) cs ws))"
  by (induction ws arbitrary: cs) (simp_all add: distinct_update)

lemma counter_get_Counter: "counter_get (Counter ws) k = count_list ws k"
  using counter_foldl_get [of "[]" ws k] by (simp add: Counter_def counter_get_def)

lemma keys_Counter: "set (map fst (Counter ws)) = set ws"
  using counter_foldl_keys [of "[]" ws] by (simp add: Counter_def)

lemma distinct_Counter: "distinct (map fst (Counter ws))"
  using counter_foldl_distinct [of "[]" ws] by (simp add: Counter_def)

lemma dict_of_foldl:
  "distinct (map fst (acc @ kvs)) \<Longrightarrow>
   foldl (\<lambda>d (k, v). AList.update k v d) acc kvs = acc @ kvs"
proof (induction kvs arbitrary: acc)
  case Nil
  then show ?case by simp
next
  case (Cons kv kvs)
  obtain k v where kv: "kv = (k, v)" by (cases kv)
  have fresh: "k \<notin> fst ` set acc" using Cons.prems by (auto simp: kv)
  have "distinct (map fst ((acc @ [(k, v)]) @ kvs))" using Cons.prems by (simp add: kv)
  then have "foldl (\<lambda>d (k, v). AList.update k v d) (acc @ [(k, v)]) kvs = (acc @ [(k, v)]) @ kvs"
    by (rule Cons.IH)
  then show ?case by (simp add: kv update_fresh [OF fresh])
qed

lemma dict_of_distinct: "distinct (map fst kvs) \<Longrightarrow> dict_of kvs = kvs"
  using dict_of_foldl [of "[]" kvs] by (simp add: dict_of_def)

section \<open>Slices and ranges\<close>

lemma py_slice_map: "py_slice (map f xs) a b = map f (py_slice xs a b)"
  by (simp add: py_slice_def Let_def take_map drop_map)

lemma take_drop_upt: "take k (drop m [0..<n]) = [min m n..<min (m + k) n]"
proof (cases "m \<le> n")
  case True
  then show ?thesis
    by (cases "m + k \<le> n") (simp_all add: min_def)
next
  case False
  then show ?thesis by (simp add: min_def)
qed

lemma py_slice_upt:
  assumes "0 \<le> a" "0 \<le> b"
  shows "py_slice [0..<n] a b = [min (nat a) n..<min (nat b) n]"
proof -
  let ?lo = "nat (min a (int n))" and ?hi = "nat (min b (int n))"
  have "py_slice [0..<n] a b = take (?hi - ?lo) (drop ?lo [0..<n])"
    using assms by (simp add: py_slice_def Let_def nat_diff_distrib')
  also have "\<dots> = [min ?lo n..<min (?lo + (?hi - ?lo)) n]"
    by (rule take_drop_upt)
  also have "\<dots> = [min (nat a) n..<min (nat b) n]"
    using assms by (cases "a \<le> b") (auto simp: min_def)
  finally show ?thesis .
qed

lemma py_slice_nth:
  assumes "0 \<le> a" "0 \<le> b"
  shows "py_slice xs a b = map ((!) xs) [min (nat a) (length xs)..<min (nat b) (length xs)]"
proof -
  have "py_slice (map ((!) xs) [0..<length xs]) a b = map ((!) xs) (py_slice [0..<length xs] a b)"
    by (rule py_slice_map)
  then show ?thesis using assms by (simp add: map_nth py_slice_upt)
qed

lemma get_target_map:
  "get_target (map f ws) idx w r = map_sum id (map f) (get_target ws idx w r)"
  by (simp add: get_target_def target_window_def randint_def Let_def py_slice_map split: sum.splits)

lemma get_target_positions:
  "get_target ws idx w r = map_sum id (map ((!) ws)) (get_target [0..<length ws] idx w r)"
  using get_target_map [of "(!) ws" "[0..<length ws]" idx w r] by (simp add: map_nth)


lemma py_slice_nat: "py_slice xs (int a) (int b) = take (b - a) (drop a xs)"
proof -
  have "py_slice xs (int a) (int b)
        = take (min b (length xs) - min a (length xs)) (drop (min a (length xs)) xs)"
    by (simp add: py_slice_def Let_def nat_diff_distrib' flip: of_nat_min)
  also have "\<dots> = take (b - a) (drop a xs)"
    by (cases "a \<le> length xs"; cases "b \<le> length xs") (simp_all add: min_def)
  finally show ?thesis .
qed

lemma py_slice_chunk:
  "py_slice ws (int i * int b) (int i * int b + int b) = take b (drop (i * b) ws)"
  using py_slice_nat [of ws "i * b" "i * b + b"] by simp

lemma py_range_nat:
  assumes "0 < b"
  shows "py_range (int (n * b)) (int b) = map (\<lambda>i. int i * int b) [0..<n]"
proof -
  have "(int (n * b) + int b - 1) div int b = int n"
  proof -
    have "int (n * b) + int b - 1 = int n * int b + (int b - 1)" by simp
    moreover have "(int n * int b + (int b - 1)) div int b = int n"
      using assms by simp
    ultimately show ?thesis by (simp only:)
  qed
  then show ?thesis using assms by (simp add: py_range_def)
qed

lemma py_range_neg:
  assumes "step < 0" "0 \<le> stop"
  shows "py_range stop step = []"
proof -
  have "(- stop - step - 1) div (- step) \<le> (- step - 1) div (- step)"
    using assms by (intro zdiv_mono1) simp_all
  also have "\<dots> = 0"
    using assms by simp
  finally have "(- stop - step - 1) div (- step) \<le> 0" .
  then show ?thesis using assms by (simp add: py_range_def)
qed


section \<open>The sampler\<close>

lemma get_target_interior:
  assumes "R < idx" "idx < length ws" "1 \<le> R" "int R \<le> window_size" "window_size < 2 ^ 63"
  shows "get_target ws (int idx) window_size (int R) = Inr (surrounding_tokens ws idx R)"
proof -
  have "py_slice ws (int idx - int R) (int idx) = map ((!) ws) [idx - R..<idx]"
    using assms by (simp add: py_slice_nth nat_diff_distrib' min_def)
  moreover have "py_slice ws (int idx + 1) (int idx + int R + 1)
                 = map ((!) ws) [idx + 1..<min (length ws) (idx + R + 1)]"
    using assms by (simp add: py_slice_nth nat_add_distrib min_def)
  ultimately show ?thesis
    using assms by (simp add: get_target_def target_window_def randint_def surrounding_tokens_def Let_def)
qed

section \<open>The batch generator\<close>

lemma get_target_ok:
  "sampler_ok w \<Longrightarrow> get_target ws idx w r = Inr (target_window ws idx r)"
  by (simp add: get_target_def randint_def sampler_ok_def)

lemma get_target_fail:
  "\<not> sampler_ok w \<Longrightarrow> get_target ws idx w r = Inl ValueError"
  by (auto simp: get_target_def randint_def sampler_ok_def)

lemma expand_batch_upt:
  assumes "sampler_ok w" "m \<le> n"
  shows "expand_batch batch w rs (c + m) [m..<n] (x, y) =
           Inr ((x @ concat (map (\<lambda>ii. replicate (length (target_window batch (int ii) (rs (c + ii))))
                                       (batch ! ii)) [m..<n]),
                 y @ concat (map (\<lambda>ii. target_window batch (int ii) (rs (c + ii))) [m..<n])),
                c + n)"
  using assms(2)
proof (induction "n - m" arbitrary: m x y)
  case 0
  then show ?case by simp
next
  case (Suc d)
  then have lt: "m < n" and d: "d = n - Suc m" and le: "Suc m \<le> n" by simp_all
  show ?case
    using Suc.hyps(1) [OF d le] assms(1) lt
    by (simp add: upt_conv_Cons get_target_ok Let_def)
qed

lemma expand_batch_pairs:
  assumes "sampler_ok w"
  shows "expand_batch batch w rs k [0..<length batch] ([], []) =
           Inr (centre_context_pairs batch rs k, k + length batch)"
  using expand_batch_upt [OF assms, of 0 "length batch" batch rs k "[]" "[]"]
  by (simp add: centre_context_pairs_def)

lemma batches_loop_upt:
  assumes "sampler_ok w" "0 < b" "n * b \<le> length ws" "m \<le> n"
  shows "batches_loop ws (int b) w rs (m * b) (map (\<lambda>i. int i * int b) [m..<n]) =
           Inr (map (\<lambda>i. centre_context_pairs (take b (drop (i * b) ws)) rs (i * b)) [m..<n])"
  using assms(4)
proof (induction "n - m" arbitrary: m)
  case 0
  then show ?case by simp
next
  case (Suc d)
  then have lt: "m < n" and d: "d = n - Suc m" and le: "Suc m \<le> n" by simp_all
  have "Suc m * b \<le> n * b" using le by (rule mult_le_mono1)
  then have len: "min (length ws - m * b) b = b"
    using assms(3) by simp
  have ih: "batches_loop ws (int b) w rs (m * b + b) (map (\<lambda>i. int i * int b) [Suc m..<n]) =
           Inr (map (\<lambda>i. centre_context_pairs (take b (drop (i * b) ws)) rs (i * b)) [Suc m..<n])"
    using Suc.hyps(1) [OF d le] by (simp add: add.commute)
  have "batches_loop ws (int b) w rs (m * b) (int m * int b # map (\<lambda>i. int i * int b) [Suc m..<n]) =
           Inr (centre_context_pairs (take b (drop (m * b) ws)) rs (m * b)
                # map (\<lambda>i. centre_context_pairs (take b (drop (i * b) ws)) rs (i * b)) [Suc m..<n])"
    unfolding batches_loop.simps py_slice_chunk Let_def expand_batch_pairs [OF assms(1)]
    by (simp add: len ih)
  then show ?case
    using lt by (simp add: upt_conv_Cons)
qed

lemma get_batches_closed:
  assumes "sampler_ok w" "0 < b"
  shows "get_batches ws (int b) w rs =
           Inr (map (\<lambda>i. centre_context_pairs (take b (drop (i * b) ws)) rs (i * b))
                  [0..<length ws div b])"
proof -
  let ?n = "length ws div b"
  let ?ws' = "take (?n * b) ws"
  have nb: "?n * b \<le> length ws" by simp
  have n_batches: "int (length ws) div int b = int ?n" by (simp add: zdiv_int)
  have slice: "py_slice ws 0 (int ?n * int b) = ?ws'"
    using py_slice_nat [of ws 0 "?n * b"] by simp
  have len: "length ?ws' = ?n * b" using nb by simp
  have chunk: "take b (drop (i * b) ?ws') = take b (drop (i * b) ws)" if "i < ?n" for i
  proof -
    have "Suc i * b \<le> ?n * b" using that by (intro mult_le_mono1) simp
    then have "b \<le> ?n * b - i * b" by simp
    then show ?thesis by (simp add: drop_take min_def)
  qed
  have "get_batches ws (int b) w rs =
          batches_loop ?ws' (int b) w rs (0 * b) (map (\<lambda>i. int i * int b) [0..<?n])"
    using assms(2) by (simp add: get_batches_def Let_def n_batches slice len py_range_nat del: of_nat_mult)
  also have "\<dots> = Inr (map (\<lambda>i. centre_context_pairs (take b (drop (i * b) ?ws')) rs (i * b)) [0..<?n])"
    using assms by (intro batches_loop_upt) simp_all
  also have "map (\<lambda>i. centre_context_pairs (take b (drop (i * b) ?ws')) rs (i * b)) [0..<?n]
             = map (\<lambda>i. centre_context_pairs (take b (drop (i * b) ws)) rs (i * b)) [0..<?n]"
    by (rule map_cong) (simp_all add: chunk)
  finally show ?thesis .
qed

lemma get_batches_neg:
  assumes "batch_size < 0"
  shows "get_batches ws batch_size w rs = Inr []"
  using assms by (simp add: get_batches_def Let_def py_range_neg)

lemma expand_batch_fail:
  "\<not> sampler_ok w \<Longrightarrow> expand_batch batch w rs k (ii # iis) (x, y) = Inl ValueError"
  by (simp add: get_target_fail)

lemma batches_loop_fail:
  assumes "\<not> sampler_ok w" "py_slice ws idx (idx + batch_size) \<noteq> []"
  shows "batches_loop ws batch_size w rs k (idx # idxs) = Inl ValueError"
proof -
  let ?batch = "py_slice ws idx (idx + batch_size)"
  have "0 < length ?batch" using assms(2) by simp
  then have "[0..<length ?batch] = 0 # [1..<length ?batch]"
    by (simp add: upt_conv_Cons)
  then have "expand_batch ?batch w rs k [0..<length ?batch] ([], []) = Inl ValueError"
    by (simp only: expand_batch_fail [OF assms(1)])
  then show ?thesis by (simp add: Let_def)
qed

lemma get_batches_fail:
  assumes "\<not> sampler_ok w" "0 < b" "b \<le> length ws"
  shows "get_batches ws (int b) w rs = Inl ValueError"
proof -
  let ?n = "length ws div b"
  let ?ws' = "take (?n * b) ws"
  have n: "0 < ?n" using assms by (simp add: div_greater_zero_iff)
  have nb: "?n * b \<le> length ws" by simp
  have n_batches: "int (length ws) div int b = int ?n" by (simp add: zdiv_int)
  have slice: "py_slice ws 0 (int ?n * int b) = ?ws'"
    using py_slice_nat [of ws 0 "?n * b"] by simp
  have len: "length ?ws' = ?n * b" using nb by simp
  have "b \<le> ?n * b" using n by simp
  then have "length (take b ?ws') = b" using nb assms(3) by simp
  then have "take b ?ws' \<noteq> []" using assms(2) by (metis length_0_conv less_numeral_extra(3))
  then have first: "py_slice ?ws' 0 (0 + int b) \<noteq> []"
    using py_slice_nat [of ?ws' 0 b] by simp
  have range: "[0..<?n] = 0 # [1..<?n]" using n by (simp add: upt_conv_Cons)
  have "get_batches ws (int b) w rs =
          batches_loop ?ws' (int b) w rs 0 (map (\<lambda>i. int i * int b) [0..<?n])"
    using assms(2) by (simp add: get_batches_def Let_def n_batches slice len py_range_nat del: of_nat_mult)
  also have "\<dots> = batches_loop ?ws' (int b) w rs 0 (0 # map (\<lambda>i. int i * int b) [1..<?n])"
    by (simp only: range list.map) simp
  also have "\<dots> = Inl ValueError"
    using assms(1) first by (rule batches_loop_fail)
  finally show ?thesis .
qed

lemma get_batches_short:
  assumes "0 < b" "length ws < b"
  shows "get_batches ws (int b) w rs = Inr []"
proof -
  have "int (length ws) div int b = 0" using assms by simp
  then show ?thesis using assms by (simp add: get_batches_def py_slice_def py_range_def)
qed

lemma get_batches_nonempty:
  assumes "get_batches ws batch_size w rs = Inr bats" "bats \<noteq> []"
  shows "0 < batch_size \<and> sampler_ok w"
proof -
  have pos: "0 < batch_size"
  proof (rule ccontr)
    assume "\<not> 0 < batch_size"
    then consider "batch_size = 0" | "batch_size < 0" by linarith
    then show False
      using assms get_batches_neg [of batch_size ws w rs] by cases (simp_all add: get_batches_def)
  qed
  then obtain b where b: "batch_size = int b" "0 < b"
    by (metis nat_0_le order_less_imp_le zero_less_nat_eq)
  have "sampler_ok w"
  proof (rule ccontr)
    assume w: "\<not> sampler_ok w"
    show False
    proof (cases "b \<le> length ws")
      case True
      then show ?thesis using assms(1) get_batches_fail [OF w b(2) True, of rs] b(1) by simp
    next
      case False
      then show ?thesis using assms get_batches_short [of b ws w rs] b by simp
    qed
  qed
  with pos show ?thesis ..
qed

lemma zip_centre_context:
  "zip (concat (map (\<lambda>i. replicate (length (g i)) (f i)) is)) (concat (map g is))
     = concat (map (\<lambda>i. map (Pair (f i)) (g i)) is)"
  by (induction "is") (simp_all add: zip_replicate1)

lemma length_centre_context:
  "length (concat (map (\<lambda>i. replicate (length (g i)) (f i)) is)) = length (concat (map g is))"
  by (induction "is") simp_all

lemma chunk_of_take:
  "k + b \<le> m \<Longrightarrow> take b (drop k (take m xs)) = take b (drop k xs)"
  by (simp add: drop_take min_def)

lemma chunk_of_append:
  "k + b \<le> length xs \<Longrightarrow> take b (drop k (xs @ ys)) = take b (drop k xs)"
  by simp

section \<open>Claims about the sampler\<close>

text \<open>
  Claim C1. For a radius \<open>R\<close> of \<open>[1, window_size]\<close>, \<open>get_target\<close> is to return the tokens
  at positions \<open>max(0, idx-R) .. idx-1\<close> followed by those at \<open>idx+1 .. min(len-1, idx+R)\<close>.
  The notebook's own example (index 2, \<open>R = 2\<close>, expected \<open>[5233, 58, 10571, 27349]\<close>) is
  evaluated: when \<open>idx - R\<close> is not positive the left slice starts at position 3, not at 0, and
  the two history tokens are lost.
\<close>

theorem get_target_doc_example:
  "get_target [5233, 58, 741, 10571, 27349, 0, 15067, 58112, 3580, 58, 10712::int] 2 5 2
     = Inr [10571, 27349]
   \<and> surrounding_tokens [5233, 58, 741, 10571, 27349, 0, 15067, 58112, 3580, 58, 10712::int] 2 2
     = [5233, 58, 10571, 27349]"
  by (simp add: get_target_def target_window_def randint_def py_slice_def surrounding_tokens_def
        Let_def upt_conv_Cons)

text \<open>
  Claim C10. For an index \<open>idx\<close> into \<open>ws\<close> and a radius \<open>R\<close> that the sampler may pick (\<open>R\<close> of
  \<open>[1, window_size]\<close>, for a window size within the range of the 64-bit draw), the list
  \<open>get_target\<close> returns never includes position \<open>idx\<close>: the result is read off \<open>ws\<close> at the
  positions that the same call returns on the list of positions \<open>[0..<len]\<close>, and \<open>idx\<close> is not
  among them.
\<close>

theorem get_target_excludes_centre:
  assumes "0 \<le> idx" "idx < int (length ws)" "1 \<le> R" "R \<le> window_size" "window_size < 2 ^ 63"
  shows "\<exists>ps. get_target [0..<length ws] idx window_size R = Inr ps
            \<and> get_target ws idx window_size R = Inr (map ((!) ws) ps)
            \<and> nat idx \<notin> set ps \<and> set ps \<subseteq> {..<length ws}"
proof -
  define first where "first = (if idx - R > 0 then idx - R else 3)"
  define ps where
    "ps = py_slice [0..<length ws] first idx @ py_slice [0..<length ws] (idx + 1) (idx + R + 1)"
  have first: "0 \<le> first" by (simp add: first_def)
  have run: "get_target [0..<length ws] idx window_size R = Inr ps"
    using assms
    by (simp add: get_target_def target_window_def randint_def ps_def first_def Let_def)
  have ps: "ps = [min (nat first) (length ws)..<min (nat idx) (length ws)]
                 @ [min (nat (idx + 1)) (length ws)..<min (nat (idx + R + 1)) (length ws)]"
    using assms first by (simp add: ps_def py_slice_upt)
  have "nat idx \<notin> set ps"
    using assms by (auto simp: ps)
  moreover have "set ps \<subseteq> {..<length ws}"
    by (auto simp: ps)
  moreover have "get_target ws idx window_size R = Inr (map ((!) ws) ps)"
    using get_target_positions [of ws idx window_size R] run by simp
  ultimately show ?thesis using run by blast
qed

theorem get_target_excludes_centre_witness:
  "(0::int) \<le> 2 \<and> (2::int) < int (length [10, 20, 30, 40, 50::int]) \<and> (1::int) \<le> 1 \<and> (1::int) \<le> 5
   \<and> (5::int) < 2 ^ 63
   \<and> (\<exists>ps. get_target [0..<length [10, 20, 30, 40, 50::int]] 2 5 1 = Inr ps
         \<and> get_target [10, 20, 30, 40, 50::int] 2 5 1 = Inr (map ((!) [10, 20, 30, 40, 50]) ps)
         \<and> nat 2 \<notin> set ps \<and> set ps \<subseteq> {..<length [10, 20, 30, 40, 50::int]})"
  using get_target_excludes_centre [of 2 "[10, 20, 30, 40, 50::int]" 1 5] by simp

section \<open>Claims about the batch generator\<close>

text \<open>
  Claim C2, as stated, for every \<open>window_size\<close>: with one token and \<open>batch_size = 1\<close> the
  claim promises \<open>1 div 1 = 1\<close> batch, but for \<open>window_size = 0\<close> and for \<open>window_size = 2^63\<close>
  the draw of the radius raises ValueError before the first batch is yielded.
\<close>

theorem get_batches_window_size_counterexample:
  "get_batches [7::int] 1 0 int = Inl ValueError
   \<and> get_batches [7::int] 1 (2 ^ 63) int = Inl ValueError
   \<and> length [7::int] div nat 1 = 1"
  using get_batches_fail [of 0 1 "[7::int]" int] get_batches_fail [of "2 ^ 63" 1 "[7::int]" int]
  by (simp add: sampler_ok_def)

text \<open>
  Claim C2, amended to the window sizes for which the sampler can draw,
  \<open>1 \<le> window_size < 2^63\<close>, and to the lists shorter than one batch, for which no window is
  drawn. For \<open>batch_size > 0\<close> the generator then yields exactly \<open>len(ws) div batch_size\<close>
  batches; batch \<open>i\<close> is the result of the inner loop on the chunk
  \<open>ws[i*batch_size : (i+1)*batch_size]\<close> alone, which has exactly \<open>batch_size\<close> tokens; and the
  trailing \<open>len(ws) mod batch_size\<close> tokens are not used: replacing them by any shorter-than-a-batch
  tail gives the same batches. (In every other case with \<open>batch_size > 0\<close> the first draw raises
  ValueError: lemma \<open>get_batches_fail\<close>.)
\<close>

theorem get_batches_full_chunks:
  assumes "0 < batch_size"
    and "1 \<le> window_size \<and> window_size < 2 ^ 63 \<or> length ws < nat batch_size"
  shows "\<exists>bats. get_batches ws batch_size window_size rs = Inr bats
          \<and> length bats = length ws div nat batch_size
          \<and> (\<forall>i < length bats.
                length (py_slice ws (int i * batch_size) ((int i + 1) * batch_size)) = nat batch_size
                \<and> expand_batch (py_slice ws (int i * batch_size) ((int i + 1) * batch_size))
                     window_size rs (i * nat batch_size) [0..<nat batch_size] ([], [])
                   = Inr (bats ! i, (i + 1) * nat batch_size))
          \<and> (\<forall>tl. length tl < nat batch_size \<longrightarrow>
                get_batches (take (length ws div nat batch_size * nat batch_size) ws @ tl)
                  batch_size window_size rs = Inr bats)"
proof (cases "sampler_ok window_size")
  case ok: True
  define b where "b = nat batch_size"
  have b: "batch_size = int b" "0 < b" using assms(1) by (simp_all add: b_def)
  define n where "n = length ws div b"
  define bats where
    "bats = map (\<lambda>i. centre_context_pairs (take b (drop (i * b) ws)) rs (i * b)) [0..<n]"
  have run: "get_batches ws batch_size window_size rs = Inr bats"
    unfolding b(1) bats_def n_def by (rule get_batches_closed [OF ok b(2)])
  have len: "length bats = n" by (simp add: bats_def)
  have chunk: "py_slice ws (int i * batch_size) ((int i + 1) * batch_size) = take b (drop (i * b) ws)"
    for i
    using py_slice_chunk [of ws i b] by (simp add: b(1) algebra_simps)
  have nb: "n * b \<le> length ws" by (simp add: n_def)
  have chunk_len: "length (take b (drop (i * b) ws)) = b" if "i < n" for i
  proof -
    have "Suc i * b \<le> n * b" using that by (intro mult_le_mono1) simp
    then show ?thesis using nb by simp
  qed
  have each: "length (py_slice ws (int i * batch_size) ((int i + 1) * batch_size)) = b
              \<and> expand_batch (py_slice ws (int i * batch_size) ((int i + 1) * batch_size))
                   window_size rs (i * b) [0..<b] ([], [])
                 = Inr (bats ! i, (i + 1) * b)" if "i < n" for i
  proof -
    let ?c = "take b (drop (i * b) ws)"
    have "expand_batch ?c window_size rs (i * b) [0..<length ?c] ([], [])
          = Inr (centre_context_pairs ?c rs (i * b), i * b + length ?c)"
      by (rule expand_batch_pairs [OF ok])
    then have "expand_batch ?c window_size rs (i * b) [0..<b] ([], [])
               = Inr (centre_context_pairs ?c rs (i * b), i * b + b)"
      unfolding chunk_len [OF that] .
    moreover have "bats ! i = centre_context_pairs ?c rs (i * b)"
      using that by (simp add: bats_def)
    moreover have "(i + 1) * b = i * b + b" by simp
    ultimately have "expand_batch ?c window_size rs (i * b) [0..<b] ([], [])
                     = Inr (bats ! i, (i + 1) * b)"
      by (simp only:)
    then show ?thesis unfolding chunk using chunk_len [OF that] by (simp only:)
  qed
  have tail: "get_batches (take (n * b) ws @ tl) batch_size window_size rs = Inr bats"
    if "length tl < b" for tl
  proof -
    let ?ws2 = "take (n * b) ws @ tl"
    have l2: "length ?ws2 = n * b + length tl" using nb by simp
    have "(n * b + length tl) div b = n" using that b(2) by simp
    then have n2: "length ?ws2 div b = n" by (simp only: l2)
    have same: "take b (drop (i * b) ?ws2) = take b (drop (i * b) ws)" if "i < n" for i
    proof -
      have le: "Suc i * b \<le> n * b" using that by (intro mult_le_mono1) simp
      then have le': "i * b + b \<le> n * b" by simp
      then have "i * b + b \<le> length (take (n * b) ws)" using nb by simp
      then have "take b (drop (i * b) ?ws2) = take b (drop (i * b) (take (n * b) ws))"
        by (rule chunk_of_append)
      also have "\<dots> = take b (drop (i * b) ws)"
        using le' by (rule chunk_of_take)
      finally show ?thesis .
    qed
    have "get_batches ?ws2 batch_size window_size rs
          = Inr (map (\<lambda>i. centre_context_pairs (take b (drop (i * b) ?ws2)) rs (i * b)) [0..<n])"
      unfolding b(1) using get_batches_closed [OF ok b(2), of ?ws2 rs] by (simp only: n2)
    also have "map (\<lambda>i. centre_context_pairs (take b (drop (i * b) ?ws2)) rs (i * b)) [0..<n] = bats"
      unfolding bats_def
    proof (rule map_cong)
      fix i assume "i \<in> set [0..<n]"
      then have "i < n" by simp
      then show "centre_context_pairs (take b (drop (i * b) ?ws2)) rs (i * b)
                 = centre_context_pairs (take b (drop (i * b) ws)) rs (i * b)"
        by (simp only: same)
    qed simp
    finally show ?thesis .
  qed
  show ?thesis
    using run len each tail unfolding b_def [symmetric] n_def [symmetric]
    by (intro exI [of _ bats]) simp
next
  case False
  then have short: "length ws < nat batch_size"
    using assms(2) unfolding sampler_ok_def by blast
  define b where "b = nat batch_size"
  have b: "batch_size = int b" "0 < b" using assms(1) by (simp_all add: b_def)
  have short': "length ws < b" using short by (simp add: b_def)
  have run: "get_batches ws batch_size window_size rs = Inr []"
    unfolding b(1) using b(2) short' by (rule get_batches_short)
  have n: "length ws div b = 0" using short' by simp
  have tail: "get_batches (take (length ws div b * b) ws @ tl) batch_size window_size rs = Inr []"
    if "length tl < b" for tl
  proof -
    have "get_batches tl (int b) window_size rs = Inr []"
      using b(2) that by (rule get_batches_short)
    then show ?thesis by (simp add: n b(1))
  qed
  show ?thesis
    using run n tail unfolding b_def [symmetric]
    by (intro exI [of _ "[]"]) simp
qed

theorem get_batches_full_chunks_witness:
  "(0::int) < 3 \<and> (1::int) \<le> 5 \<and> (5::int) < 2 ^ 63
   \<and> (\<exists>bats. get_batches [10, 11, 12, 13, 14, 15, 16::int] 3 5 (\<lambda>k. 1) = Inr bats
        \<and> length bats = 2
        \<and> expand_batch (py_slice [10, 11, 12, 13, 14, 15, 16::int] (int 1 * 3) ((int 1 + 1) * 3))
             5 (\<lambda>k. 1) (1 * nat 3) [0..<nat 3] ([], []) = Inr (bats ! 1, (1 + 1) * nat 3)
        \<and> get_batches (take (length [10, 11, 12, 13, 14, 15, 16::int] div nat 3 * nat 3)
                         [10, 11, 12, 13, 14, 15, 16::int] @ [99]) 3 5 (\<lambda>k. 1) = Inr bats)
   \<and> (0::int) < 4 \<and> length [1, 2, 3::int] < nat 4
   \<and> (\<exists>bats. get_batches [1, 2, 3::int] 4 0 (\<lambda>k. 1) = Inr bats
        \<and> length bats = length [1, 2, 3::int] div nat 4)"
proof -
  have h: "(0::int) < 3" "(1::int) \<le> 5 \<and> (5::int) < 2 ^ 63 \<or> length [10, 11, 12, 13, 14, 15, 16::int] < nat 3"
    by simp_all
  obtain bats where
    run: "get_batches [10, 11, 12, 13, 14, 15, 16::int] 3 5 (\<lambda>k. 1) = Inr bats"
    and len: "length bats = length [10, 11, 12, 13, 14, 15, 16::int] div nat 3"
    and each: "\<forall>i < length bats.
                length (py_slice [10, 11, 12, 13, 14, 15, 16::int] (int i * 3) ((int i + 1) * 3)) = nat 3
                \<and> expand_batch (py_slice [10, 11, 12, 13, 14, 15, 16::int] (int i * 3) ((int i + 1) * 3))
                     5 (\<lambda>k. 1) (i * nat 3) [0..<nat 3] ([], [])
                   = Inr (bats ! i, (i + 1) * nat 3)"
    and tail: "\<forall>tl. length tl < nat 3 \<longrightarrow>
                get_batches (take (length [10, 11, 12, 13, 14, 15, 16::int] div nat 3 * nat 3)
                               [10, 11, 12, 13, 14, 15, 16::int] @ tl) 3 5 (\<lambda>k. 1) = Inr bats"
    using get_batches_full_chunks [OF h, of "\<lambda>k. 1"] by blast
  have l2: "length bats = 2" using len by simp
  have "(1::nat) < length bats" using l2 by simp
  then have e1: "expand_batch (py_slice [10, 11, 12, 13, 14, 15, 16::int] (int 1 * 3) ((int 1 + 1) * 3))
             5 (\<lambda>k. 1) (1 * nat 3) [0..<nat 3] ([], []) = Inr (bats ! 1, (1 + 1) * nat 3)"
    using each by blast
  have "length [99::int] < nat 3" by simp
  then have t: "get_batches (take (length [10, 11, 12, 13, 14, 15, 16::int] div nat 3 * nat 3)
                         [10, 11, 12, 13, 14, 15, 16::int] @ [99]) 3 5 (\<lambda>k. 1) = Inr bats"
    using tail by blast
  have first: "\<exists>bats. get_batches [10, 11, 12, 13, 14, 15, 16::int] 3 5 (\<lambda>k. 1) = Inr bats
        \<and> length bats = 2
        \<and> expand_batch (py_slice [10, 11, 12, 13, 14, 15, 16::int] (int 1 * 3) ((int 1 + 1) * 3))
             5 (\<lambda>k. 1) (1 * nat 3) [0..<nat 3] ([], []) = Inr (bats ! 1, (1 + 1) * nat 3)
        \<and> get_batches (take (length [10, 11, 12, 13, 14, 15, 16::int] div nat 3 * nat 3)
                         [10, 11, 12, 13, 14, 15, 16::int] @ [99]) 3 5 (\<lambda>k. 1) = Inr bats"
    using run l2 e1 t by blast
  have g: "(0::int) < 4" and sh: "length [1, 2, 3::int] < nat 4" by simp_all
  then have g2: "(1::int) \<le> 0 \<and> (0::int) < 2 ^ 63 \<or> length [1, 2, 3::int] < nat 4" by blast
  have second: "\<exists>bats. get_batches [1, 2, 3::int] 4 0 (\<lambda>k. 1) = Inr bats
        \<and> length bats = length [1, 2, 3::int] div nat 4"
    using get_batches_full_chunks [OF g g2, of "\<lambda>k. 1"] by blast
  have h1: "(1::int) \<le> 5" "(5::int) < 2 ^ 63" by simp_all
  show ?thesis using h(1) h1 first g sh second by blast
qed

text \<open>
  Claim C3. Every batch \<open>(x, y)\<close> that \<open>get_batches\<close> yields has \<open>len(x) = len(y)\<close>, and its
  pairs \<open>(x[k], y[k])\<close> are, for each position \<open>ii\<close> of the chunk in order, the center token
  \<open>chunk[ii]\<close> paired with each context token that the call \<open>get_target(chunk, ii, window_size)\<close>
  of that position returned, in the order returned.
\<close>

theorem get_batches_pairs:
  assumes run: "get_batches ws batch_size window_size rs = Inr bats"
    and i: "i < length bats"
    and chunk: "chunk = py_slice ws (int i * batch_size) ((int i + 1) * batch_size)"
  shows "\<exists>ctxs. length ctxs = length chunk
           \<and> (\<forall>ii < length chunk.
                 get_target chunk (int ii) window_size (rs (i * nat batch_size + ii)) = Inr (ctxs ! ii))
           \<and> length (fst (bats ! i)) = length (snd (bats ! i))
           \<and> zip (fst (bats ! i)) (snd (bats ! i))
               = concat (map (\<lambda>ii. map (Pair (chunk ! ii)) (ctxs ! ii)) [0..<length chunk])"
proof -
  have "bats \<noteq> []" using i by auto
  with run have pos: "0 < batch_size" and w: "sampler_ok window_size"
    using get_batches_nonempty by blast+
  define b where "b = nat batch_size"
  have b: "batch_size = int b" "0 < b" using pos by (simp_all add: b_def)
  have c: "chunk = take b (drop (i * b) ws)"
    using py_slice_chunk [of ws i b] by (simp add: chunk b(1) algebra_simps)
  define tw where "tw = (\<lambda>ii. target_window chunk (int ii) (rs (i * b + ii)))"
  define ctxs where "ctxs = map tw [0..<length chunk]"
  have "bats = map (\<lambda>i. centre_context_pairs (take b (drop (i * b) ws)) rs (i * b))
                 [0..<length ws div b]"
    using get_batches_closed [OF w b(2), of ws rs] run by (simp add: b(1))
  then have "bats ! i = centre_context_pairs chunk rs (i * b)"
    using i by (simp add: c)
  then have x: "fst (bats ! i) = concat (map (\<lambda>ii. replicate (length (tw ii)) (chunk ! ii)) [0..<length chunk])"
    and y: "snd (bats ! i) = concat (map tw [0..<length chunk])"
    by (simp_all add: centre_context_pairs_def tw_def)
  have len: "length ctxs = length chunk" by (simp add: ctxs_def)
  have calls: "\<forall>ii < length chunk.
                 get_target chunk (int ii) window_size (rs (i * nat batch_size + ii)) = Inr (ctxs ! ii)"
    using w by (simp add: get_target_ok ctxs_def tw_def b_def)
  have lens: "length (fst (bats ! i)) = length (snd (bats ! i))"
    unfolding x y by (rule length_centre_context)
  have "zip (fst (bats ! i)) (snd (bats ! i))
        = concat (map (\<lambda>ii. map (Pair (chunk ! ii)) (tw ii)) [0..<length chunk])"
    unfolding x y by (rule zip_centre_context)
  also have "map (\<lambda>ii. map (Pair (chunk ! ii)) (tw ii)) [0..<length chunk]
             = map (\<lambda>ii. map (Pair (chunk ! ii)) (ctxs ! ii)) [0..<length chunk]"
    by (rule map_cong) (simp_all add: ctxs_def)
  finally show ?thesis using len calls lens by blast
qed

theorem get_batches_pairs_witness:
  "get_batches [0, 1, 2, 3::int] 4 5 (\<lambda>k. 5) = Inr [([0, 0, 0, 1, 1, 2], [1, 2, 3, 2, 3, 3])]
   \<and> (0::nat) < length [([0, 0, 0, 1, 1, 2], [1, 2, 3, 2, 3, 3::int])]
   \<and> [0, 1, 2, 3::int] = py_slice [0, 1, 2, 3::int] (int 0 * 4) ((int 0 + 1) * 4)
   \<and> (\<exists>ctxs. length ctxs = length [0, 1, 2, 3::int]
         \<and> get_target [0, 1, 2, 3::int] (int 1) 5 5 = Inr (ctxs ! 1)
         \<and> length [0, 0, 0, 1, 1, 2::int] = length [1, 2, 3, 2, 3, 3::int]
         \<and> zip [0, 0, 0, 1, 1, 2::int] [1, 2, 3, 2, 3, 3::int]
             = concat (map (\<lambda>ii. map (Pair ([0, 1, 2, 3::int] ! ii)) (ctxs ! ii))
                         [0..<length [0, 1, 2, 3::int]]))"
proof -
  have run: "get_batches [0, 1, 2, 3::int] 4 5 (\<lambda>k. 5)
             = Inr [([0, 0, 0, 1, 1, 2], [1, 2, 3, 2, 3, 3])]"
    by code_simp
  have i: "(0::nat) < length [([0, 0, 0, 1, 1, 2], [1, 2, 3, 2, 3, 3::int])]" by simp
  have chunk: "[0, 1, 2, 3::int] = py_slice [0, 1, 2, 3::int] (int 0 * 4) ((int 0 + 1) * 4)"
    by (simp add: py_slice_def)
  obtain ctxs where l: "length ctxs = length [0, 1, 2, 3::int]"
    and calls: "\<forall>ii < length [0, 1, 2, 3::int].
           get_target [0, 1, 2, 3::int] (int ii) 5 (5::int) = Inr (ctxs ! ii)"
    and ll: "length [0, 0, 0, 1, 1, 2::int] = length [1, 2, 3, 2, 3, 3::int]"
    and z: "zip [0, 0, 0, 1, 1, 2::int] [1, 2, 3, 2, 3, 3::int]
             = concat (map (\<lambda>ii. map (Pair ([0, 1, 2, 3::int] ! ii)) (ctxs ! ii))
                         [0..<length [0, 1, 2, 3::int]])"
    using get_batches_pairs [OF run i chunk] by auto
  have c1: "get_target [0, 1, 2, 3::int] (int 1) 5 5 = Inr (ctxs ! 1)"
    using calls [rule_format, of 1] by simp
  show ?thesis using run i chunk l c1 ll z by blast
qed

section \<open>Claims about the vocabulary builder\<close>

lemma vocab_order_props:
  "distinct (vocab_order words)" "set (vocab_order words) = set words"
  "length (vocab_order words) = card (set words)"
  "sorted (map (\<lambda>x. - int (count_list words x)) (vocab_order words))"
proof -
  show d: "distinct (vocab_order words)" by (simp add: vocab_order_def distinct_Counter)
  show s: "set (vocab_order words) = set words"
    using keys_Counter [of words] by (simp add: vocab_order_def)
  show "length (vocab_order words) = card (set words)"
    using distinct_card [OF d] s by simp
  show "sorted (map (\<lambda>x. - int (count_list words x)) (vocab_order words))"
    unfolding vocab_order_def by (rule sorted_sort_key)
qed

lemma create_lookup_tables_closed:
  "create_lookup_tables words =
     (zip (vocab_order words) [0..<length (vocab_order words)],
      zip [0..<length (vocab_order words)] (vocab_order words))"
proof -
  let ?sv = "vocab_order words"
  have key: "counter_get (Counter words) = count_list words"
    by (rule ext) (rule counter_get_Counter)
  have sv: "sorted_reverse (counter_get (Counter words)) (map fst (Counter words)) = ?sv"
    by (simp add: sorted_reverse_def vocab_order_def key)
  have i2v: "dict_of (enumerate 0 ?sv) = zip [0..<length ?sv] ?sv"
    by (simp add: dict_of_distinct enumerate_eq_zip)
  have swap: "map (\<lambda>(ii, word). (word, ii)) (zip [0..<length ?sv] ?sv) = zip ?sv [0..<length ?sv]"
    by (simp add: zip_commute [of ?sv] case_prod_unfold)
  have v2i: "dict_of (zip ?sv [0..<length ?sv]) = zip ?sv [0..<length ?sv]"
    using vocab_order_props(1) [of words] by (simp add: dict_of_distinct)
  show ?thesis
    by (simp add: create_lookup_tables_def Let_def sv i2v swap v2i)
qed

lemma dict_get_Inr: "dict_get d k = Inr v \<longleftrightarrow> map_of d k = Some v"
  by (simp add: dict_get_def split: option.splits)

lemma dict_get_vocab:
  assumes "distinct sv"
  shows "dict_get (zip sv [0..<length sv]) w = Inr i \<longleftrightarrow> i < length sv \<and> sv ! i = w"
proof -
  have "map_of (zip sv [0..<length sv]) w = Some i \<longleftrightarrow> (w, i) \<in> set (zip sv [0..<length sv])"
    using assms by (intro map_of_eq_Some_iff) simp
  also have "\<dots> \<longleftrightarrow> i < length sv \<and> sv ! i = w"
    by (auto simp: set_zip)
  finally show ?thesis unfolding dict_get_Inr .
qed

lemma dict_get_ids:
  "dict_get (zip [0..<length sv] sv) i = Inr w \<longleftrightarrow> i < length sv \<and> sv ! i = w"
proof -
  have "map_of (zip [0..<length sv] sv) i = Some w \<longleftrightarrow> (i, w) \<in> set (zip [0..<length sv] sv)"
    by (intro map_of_eq_Some_iff) simp
  also have "\<dots> \<longleftrightarrow> i < length sv \<and> sv ! i = w"
    using in_set_enumerate_eq [of "(i, w)" 0 sv] by (simp add: enumerate_eq_zip)
  finally show ?thesis unfolding dict_get_Inr .
qed

text \<open>
  Claim C4. The two tables that \<open>create_lookup_tables\<close> returns are mutual inverses: for every
  word \<open>w\<close> of the input \<open>int_to_vocab[vocab_to_int[w]] = w\<close>, for every assigned id \<open>i\<close>
  \<open>vocab_to_int[int_to_vocab[i]] = i\<close>, and the assigned ids are exactly
  \<open>0 .. (number of distinct words) - 1\<close>. (The empty input is included: both tables are empty.)
\<close>

theorem lookup_tables_inverse:
  assumes "create_lookup_tables words = (vocab_to_int, int_to_vocab)"
  shows "(\<forall>w \<in> set words. \<exists>i. dict_get vocab_to_int w = Inr i \<and> dict_get int_to_vocab i = Inr w)
       \<and> (\<forall>i \<in> set (map fst int_to_vocab).
             \<exists>w. dict_get int_to_vocab i = Inr w \<and> dict_get vocab_to_int w = Inr i)
       \<and> set (map fst int_to_vocab) = {0..<card (set words)}
       \<and> set (map snd vocab_to_int) = {0..<card (set words)}
       \<and> set (map fst vocab_to_int) = set words"
proof -
  let ?sv = "vocab_order words"
  have v2i: "vocab_to_int = zip ?sv [0..<length ?sv]"
    and i2v: "int_to_vocab = zip [0..<length ?sv] ?sv"
    using assms by (simp_all add: create_lookup_tables_closed)
  note d = vocab_order_props(1) [of words] and s = vocab_order_props(2) [of words]
    and l = vocab_order_props(3) [of words]
  have fwd: "\<exists>i. dict_get vocab_to_int w = Inr i \<and> dict_get int_to_vocab i = Inr w"
    if "w \<in> set words" for w
  proof -
    from that have "w \<in> set ?sv" by (simp only: s)
    then obtain i where "i < length ?sv" "?sv ! i = w"
      by (auto simp: in_set_conv_nth)
    then show ?thesis
      unfolding v2i i2v dict_get_vocab [OF d] dict_get_ids by blast
  qed
  have bwd: "\<exists>w. dict_get int_to_vocab i = Inr w \<and> dict_get vocab_to_int w = Inr i"
    if "i \<in> set (map fst int_to_vocab)" for i
  proof -
    from that have "i < length ?sv" by (simp add: i2v)
    then show ?thesis
      unfolding v2i i2v dict_get_vocab [OF d] dict_get_ids by blast
  qed
  have "set (map fst int_to_vocab) = {0..<card (set words)}"
    by (simp add: i2v l)
  moreover have "set (map snd vocab_to_int) = {0..<card (set words)}"
    by (simp add: v2i l)
  moreover have "set (map fst vocab_to_int) = set words"
    by (simp add: v2i s)
  ultimately show ?thesis using fwd bwd by blast
qed

theorem lookup_tables_inverse_witness:
  "create_lookup_tables [''b'', ''a'', ''c'', ''a'']
     = ([(''a'', 0), (''b'', 1), (''c'', 2)], [(0, ''a''), (1, ''b''), (2, ''c'')])
   \<and> (\<exists>i. dict_get [(''a'', 0::nat), (''b'', 1), (''c'', 2)] ''c'' = Inr i
            \<and> dict_get [(0::nat, ''a''), (1, ''b''), (2, ''c'')] i = Inr ''c'')
   \<and> set (map fst [(0::nat, ''a''), (1, ''b''), (2, ''c'')])
       = {0..<card (set [''b'', ''a'', ''c'', ''a''])}"
proof -
  have run: "create_lookup_tables [''b'', ''a'', ''c'', ''a'']
     = ([(''a'', 0), (''b'', 1), (''c'', 2)], [(0, ''a''), (1, ''b''), (2, ''c'')])"
    by code_simp
  have m: "''c'' \<in> set [''b'', ''a'', ''c'', ''a'']" by simp
  from lookup_tables_inverse [OF run] m
  have "\<exists>i. dict_get [(''a'', 0::nat), (''b'', 1), (''c'', 2)] ''c'' = Inr i
            \<and> dict_get [(0::nat, ''a''), (1, ''b''), (2, ''c'')] i = Inr ''c''"
    by blast
  moreover from lookup_tables_inverse [OF run]
  have "set (map fst [(0::nat, ''a''), (1, ''b''), (2, ''c'')])
       = {0..<card (set [''b'', ''a'', ''c'', ''a''])}"
    by blast
  ultimately show ?thesis using run by blast
qed

text \<open>
  Claim C5. Ids follow descending frequency: if \<open>vocab_to_int[w1] < vocab_to_int[w2]\<close> then
  \<open>w1\<close> occurs at least as often as \<open>w2\<close>. In particular id 0 goes to a most frequent word:
  the word with id 0 occurs at least as often as any other, some word has id 0 when the input
  is not empty, and a word that occurs strictly more often than every other word has id 0.
\<close>

theorem lookup_tables_by_frequency:
  assumes "create_lookup_tables words = (vocab_to_int, int_to_vocab)"
  shows "(\<forall>w1 w2 i1 i2.
            dict_get vocab_to_int w1 = Inr i1 \<and> dict_get vocab_to_int w2 = Inr i2 \<and> i1 < i2
            \<longrightarrow> count_list words w2 \<le> count_list words w1)
       \<and> (\<forall>w. dict_get vocab_to_int w = Inr 0 \<longrightarrow> (\<forall>w'. count_list words w' \<le> count_list words w))
       \<and> (words \<noteq> [] \<longrightarrow> (\<exists>w. dict_get vocab_to_int w = Inr 0))
       \<and> (\<forall>w \<in> set words.
             (\<forall>w' \<in> set words. w' \<noteq> w \<longrightarrow> count_list words w' < count_list words w)
             \<longrightarrow> dict_get vocab_to_int w = Inr 0)"
proof -
  let ?sv = "vocab_order words"
  let ?key = "\<lambda>x. - int (count_list words x)"
  have v2i: "vocab_to_int = zip ?sv [0..<length ?sv]"
    using assms by (simp add: create_lookup_tables_closed)
  note d = vocab_order_props(1) [of words] and s = vocab_order_props(2) [of words]
    and l = vocab_order_props(3) [of words] and srt = vocab_order_props(4) [of words]
  have get: "dict_get vocab_to_int w = Inr i \<longleftrightarrow> i < length ?sv \<and> ?sv ! i = w" for w i
    unfolding v2i by (rule dict_get_vocab [OF d])
  have mono: "count_list words (?sv ! j) \<le> count_list words (?sv ! i)"
    if "i \<le> j" "j < length ?sv" for i j
  proof -
    have "map ?key ?sv ! i \<le> map ?key ?sv ! j"
      using srt that by (simp add: sorted_iff_nth_mono del: nth_map)
    then show ?thesis using that by simp
  qed
  have order: "count_list words w2 \<le> count_list words w1"
    if "dict_get vocab_to_int w1 = Inr i1" "dict_get vocab_to_int w2 = Inr i2" "i1 < i2"
    for w1 w2 i1 i2
    using that mono [of i1 i2] by (auto simp: get)
  have top: "count_list words w' \<le> count_list words w"
    if w: "dict_get vocab_to_int w = Inr 0" for w w'
  proof (cases "w' \<in> set words")
    case True
    then have "w' \<in> set ?sv" by (simp only: s)
    then obtain j where j: "j < length ?sv" "?sv ! j = w'"
      by (auto simp: in_set_conv_nth)
    then show ?thesis using w mono [of 0 j] by (auto simp: get)
  next
    case False
    then show ?thesis by (simp add: count_list_0_iff)
  qed
  have ex: "\<exists>w. dict_get vocab_to_int w = Inr 0" if "words \<noteq> []"
  proof -
    have "0 < length ?sv" using that l by (simp add: card_gt_0_iff)
    then show ?thesis by (auto simp: get)
  qed
  have strict: "dict_get vocab_to_int w = Inr 0"
    if w: "w \<in> set words"
      and big: "\<forall>w' \<in> set words. w' \<noteq> w \<longrightarrow> count_list words w' < count_list words w"
    for w
  proof -
    from w have "w \<in> set ?sv" by (simp only: s)
    then obtain i where i: "i < length ?sv" "?sv ! i = w"
      by (auto simp: in_set_conv_nth)
    have "i = 0"
    proof (rule ccontr)
      assume "i \<noteq> 0"
      then have pos: "0 < i" by simp
      have z: "0 < length ?sv" using i(1) by (rule order_le_less_trans [OF le0])
      have "?sv ! 0 \<noteq> ?sv ! i"
        using nth_eq_iff_index_eq [OF d z i(1)] pos by simp
      then have "?sv ! 0 \<noteq> w" by (simp only: i(2)) simp
      moreover have "?sv ! 0 \<in> set words"
        using s i pos by (metis nth_mem order_less_trans)
      ultimately have "count_list words (?sv ! 0) < count_list words w" using big by blast
      moreover have "count_list words w \<le> count_list words (?sv ! 0)"
        using mono [of 0 i] i by simp
      ultimately show False by simp
    qed
    then show ?thesis using i by (simp add: get)
  qed
  show ?thesis using order top ex strict by blast
qed

theorem lookup_tables_by_frequency_witness:
  "create_lookup_tables [''b'', ''a'', ''c'', ''a'']
     = ([(''a'', 0), (''b'', 1), (''c'', 2)], [(0, ''a''), (1, ''b''), (2, ''c'')])
   \<and> dict_get [(''a'', 0::nat), (''b'', 1), (''c'', 2)] ''a'' = Inr 0
   \<and> dict_get [(''a'', 0::nat), (''b'', 1), (''c'', 2)] ''c'' = Inr 2
   \<and> count_list [''b'', ''a'', ''c'', ''a''] ''c'' \<le> count_list [''b'', ''a'', ''c'', ''a''] ''a''"
proof -
  have run: "create_lookup_tables [''b'', ''a'', ''c'', ''a'']
     = ([(''a'', 0), (''b'', 1), (''c'', 2)], [(0, ''a''), (1, ''b''), (2, ''c'')])"
    by code_simp
  have a: "dict_get [(''a'', 0::nat), (''b'', 1), (''c'', 2)] ''a'' = Inr 0"
    and c: "dict_get [(''a'', 0::nat), (''b'', 1), (''c'', 2)] ''c'' = Inr 2"
    by (simp_all add: dict_get_def)
  have "(0::nat) < 2" by simp
  with lookup_tables_by_frequency [OF run] a c
  have "count_list [''b'', ''a'', ''c'', ''a''] ''c'' \<le> count_list [''b'', ''a'', ''c'', ''a''] ''a''"
    by blast
  then show ?thesis using run a c by blast
qed

section \<open>Claims about the text preprocessor\<close>

text \<open>
  Claim C6. \<open>preprocess\<close> returns the tokens of the tokenized (lowercased,
  punctuation-replaced, whitespace-split) text that occur strictly more than five times in
  it, each at every one of its positions and in the original order; the tokens that occur five
  times or fewer are removed.
\<close>

theorem preprocess_keeps_frequent:
  "preprocess text = filter (\<lambda>w. 5 < count_list (tokenize text) w) (tokenize text)
   \<and> set (preprocess text) = {w \<in> set (tokenize text). 5 < count_list (tokenize text) w}
   \<and> subseq (preprocess text) (tokenize text)"
proof -
  have eq: "preprocess text = filter (\<lambda>w. 5 < count_list (tokenize text) w) (tokenize text)"
    by (simp add: preprocess_def Let_def counter_get_Counter)
  then show ?thesis by auto
qed

subsection \<open>The replacement chain is one pass\<close>

lemma replace_punctuation_split:
  "replace_punctuation text = late_marks (single_marks (lower text))"
  by (simp add: replace_punctuation_def late_marks_def single_marks_def)

lemma replace_Nil: "old \<noteq> [] \<Longrightarrow> replace old new [] = []"
  by (subst replace.simps) simp

lemma replace_char_Cons:
  "replace [c] new (x # xs) = (if x = c then new @ replace [c] new xs else x # replace [c] new xs)"
  by (subst replace.simps) simp

lemma replace_char: "replace [c] new text = concat (map (\<lambda>x. if x = c then new else [x]) text)"
  by (induction "text") (simp_all add: replace_Nil replace_char_Cons)

lemma replace_char_append:
  "replace [c] new (s @ t) = replace [c] new s @ replace [c] new t"
  by (simp add: replace_char)

lemma replace_char_id: "c \<notin> set s \<Longrightarrow> replace [c] new s = s"
  by (induction s) (auto simp: replace_Nil replace_char_Cons)

lemma replace_hyphens_other:
  "x \<noteq> CHR ''-'' \<Longrightarrow> replace ''--'' new (x # xs) = x # replace ''--'' new xs"
  by (subst replace.simps) simp

lemma replace_hyphens_pair:
  "replace ''--'' new (CHR ''-'' # CHR ''-'' # xs) = new @ replace ''--'' new xs"
  by (subst replace.simps) simp

lemma replace_hyphens_single:
  "xs = [] \<or> hd xs \<noteq> CHR ''-'' \<Longrightarrow>
   replace ''--'' new (CHR ''-'' # xs) = CHR ''-'' # replace ''--'' new xs"
  by (subst replace.simps) (cases xs; auto)

lemma replace_hyphens_append:
  "CHR ''-'' \<notin> set s \<Longrightarrow> replace ''--'' new (s @ t) = s @ replace ''--'' new t"
  by (induction s) (auto simp: replace_hyphens_other)

lemma sentinel_Some:
  assumes "sentinel c = Some s"
  shows "s \<noteq> []" "hd s = CHR '' ''" "last s = CHR '' ''" "set s \<inter> punctuation = {}"
    "CHR ''-'' \<notin> set s" "c \<in> punctuation" "c \<noteq> CHR ''-''"
  using assms by (auto simp: sentinel_def punctuation_def split: if_splits)

lemma sentinel_None:
  assumes "sentinel c = None"
  shows "c \<notin> punctuation"
  using assms by (auto simp: sentinel_def punctuation_def split: if_splits)

lemma single_marks_append: "single_marks (s @ t) = single_marks s @ single_marks t"
  by (simp add: single_marks_def replace_char_append)

lemma single_marks_char:
  "single_marks [c] = (if c = CHR '':'' then [c] else case sentinel c of Some s \<Rightarrow> s | None \<Rightarrow> [c])"
  by (simp add: single_marks_def replace_char sentinel_def)

lemma single_marks_Cons: "single_marks (c # cs) = single_marks [c] @ single_marks cs"
  using single_marks_append [of "[c]" cs] by simp


lemma late_marks_Nil: "late_marks [] = []"
  by (simp add: late_marks_def replace_Nil)

lemma late_marks_sentinel:
  assumes "sentinel c = Some s"
  shows "late_marks (s @ t) = s @ late_marks t"
proof -
  have "CHR ''?'' \<notin> set s" "CHR '':'' \<notin> set s"
    using sentinel_Some(4) [OF assms] by (auto simp: punctuation_def)
  then show ?thesis
    using sentinel_Some(5) [OF assms]
    by (simp add: late_marks_def replace_hyphens_append replace_char_append replace_char_id)
qed

lemma late_marks_other:
  assumes "c \<noteq> CHR ''-''"
  shows "late_marks (c # t) =
           (if c = CHR ''?'' then '' <QUESTION_MARK> ''
            else if c = CHR '':'' then '' <COLON> '' else [c]) @ late_marks t"
  using assms
  by (simp add: late_marks_def replace_hyphens_other replace_char_Cons replace_char_append
        replace_char_id)

lemma late_marks_pair:
  "late_marks (CHR ''-'' # CHR ''-'' # t) = '' <HYPHENS> '' @ late_marks t"
  by (simp add: late_marks_def replace_hyphens_pair replace_char_Cons)

lemma late_marks_single:
  assumes "t = [] \<or> hd t \<noteq> CHR ''-''"
  shows "late_marks (CHR ''-'' # t) = CHR ''-'' # late_marks t"
  using assms by (simp add: late_marks_def replace_hyphens_single replace_char_Cons)

lemma hd_single_marks:
  assumes "d \<noteq> CHR ''-''"
  shows "single_marks (d # cs) \<noteq> [] \<and> hd (single_marks (d # cs)) \<noteq> CHR ''-''"
proof (cases "sentinel d")
  case None
  then show ?thesis
    using assms single_marks_Cons [of d cs] by (simp add: single_marks_char)
next
  case (Some s)
  then show ?thesis
    using assms single_marks_Cons [of d cs] sentinel_Some(1,2) [OF Some]
    by (simp add: single_marks_char)
qed

lemma late_single_is_pass: "late_marks (single_marks t) = sentinel_pass t"
proof (induction t rule: sentinel_pass.induct)
  case 1
  then show ?case by (simp add: single_marks_def late_marks_def replace_Nil)
next
  case (2 c)
  show ?case
  proof (cases "sentinel c")
    case None
    then have "c \<noteq> CHR ''?''" "c \<noteq> CHR '':''"
      using sentinel_None [OF None] by (auto simp: punctuation_def)
    then show ?thesis
      using None late_marks_single [of "[]"] late_marks_other [of c "[]"]
      by (cases "c = CHR ''-''") (simp_all add: single_marks_char late_marks_Nil)
  next
    case (Some s)
    show ?thesis
    proof (cases "c = CHR '':''")
      case True
      then show ?thesis
        using late_marks_other [of c "[]"] by (simp add: single_marks_char late_marks_Nil sentinel_def)
    next
      case False
      then show ?thesis
        using Some late_marks_sentinel [OF Some, of "[]"]
        by (simp add: single_marks_char late_marks_Nil)
    qed
  qed
next
  case (3 c d cs)
  have split: "single_marks (c # d # cs) = single_marks [c] @ single_marks (d # cs)"
    by (rule single_marks_Cons)
  show ?case
  proof (cases "sentinel c")
    case (Some s)
    note ih = "3.IH"(3) [OF Some]
    show ?thesis
    proof (cases "c = CHR '':''")
      case True
      then show ?thesis
        unfolding split
        using ih late_marks_other [of c "single_marks (d # cs)"]
        by (simp add: single_marks_char sentinel_def)
    next
      case False
      then show ?thesis
        unfolding split
        using Some ih late_marks_sentinel [OF Some, of "single_marks (d # cs)"]
        by (simp add: single_marks_char)
    qed
  next
    case None
    then have c: "c \<noteq> CHR ''?''" "c \<noteq> CHR '':''"
      using sentinel_None [OF None] by (auto simp: punctuation_def)
    show ?thesis
    proof (cases "c = CHR ''-'' \<and> d = CHR ''-''")
      case True
      have d: "sentinel d = None" using True by (simp add: sentinel_def)
      have "single_marks (c # d # cs) = CHR ''-'' # CHR ''-'' # single_marks cs"
        unfolding split
        using True None d single_marks_Cons [of d cs] by (simp add: single_marks_char)
      then show ?thesis
        using None True "3.IH"(1) [OF None True] by (simp add: late_marks_pair)
    next
      case False
      note ih = "3.IH"(2) [OF None False]
      show ?thesis
      proof (cases "c = CHR ''-''")
        case True
        then have "d \<noteq> CHR ''-''" using False by simp
        then have "single_marks (d # cs) = [] \<or> hd (single_marks (d # cs)) \<noteq> CHR ''-''"
          using hd_single_marks [of d cs] by simp
        then have "late_marks (CHR ''-'' # single_marks (d # cs))
                   = CHR ''-'' # late_marks (single_marks (d # cs))"
          by (rule late_marks_single)
        then show ?thesis
          unfolding split
          using None True False ih by (simp add: single_marks_char)
      next
        case nh: False
        then show ?thesis
          unfolding split
          using None c False ih late_marks_other [OF nh, of "single_marks (d # cs)"]
          by (simp add: single_marks_char)
      qed
    qed
  qed
qed

lemma replace_punctuation_pass: "replace_punctuation text = sentinel_pass (lower text)"
  by (simp only: replace_punctuation_split late_single_is_pass)


lemma double_hyphen_Cons:
  "sublist ''--'' (c # r) \<longleftrightarrow> (c = CHR ''-'' \<and> r \<noteq> [] \<and> hd r = CHR ''-'') \<or> sublist ''--'' r"
  by (cases r) (auto simp: sublist_Cons_right)

lemma double_hyphen_append:
  assumes "\<not> sublist ''--'' s" "\<not> sublist ''--'' r" "s = [] \<or> last s \<noteq> CHR ''-''"
  shows "\<not> sublist ''--'' (s @ r)"
  using assms
proof (induction s)
  case Nil
  then show ?case by simp
next
  case (Cons c s)
  then show ?case
    by (cases s) (auto simp: double_hyphen_Cons split: if_splits)
qed

lemma sentinel_no_hyphens:
  assumes "sentinel c = Some s"
  shows "\<not> sublist ''--'' s"
proof
  assume "sublist ''--'' s"
  then have "set ''--'' \<subseteq> set s" by (rule set_mono_sublist)
  then show False using sentinel_Some(5) [OF assms] by simp
qed

lemma hd_sentinel_pass:
  assumes "d \<noteq> CHR ''-''"
  shows "sentinel_pass (d # cs) \<noteq> [] \<and> hd (sentinel_pass (d # cs)) \<noteq> CHR ''-''"
proof (cases "sentinel d")
  case None
  then show ?thesis using assms by (cases cs) simp_all
next
  case (Some s)
  then show ?thesis using assms sentinel_Some(1,2) [OF Some] by (cases cs) simp_all
qed

lemma sentinel_pass_no_hyphens: "\<not> sublist ''--'' (sentinel_pass t)"
proof (induction t rule: sentinel_pass.induct)
  case 1
  then show ?case by simp
next
  case (2 c)
  then show ?case
    by (cases "sentinel c") (simp_all add: sentinel_no_hyphens double_hyphen_Cons)
next
  case (3 c d cs)
  show ?case
  proof (cases "sentinel c")
    case (Some s)
    have "\<not> sublist ''--'' (s @ sentinel_pass (d # cs))"
      using sentinel_no_hyphens [OF Some] "3.IH"(3) [OF Some] sentinel_Some(3) [OF Some]
      by (intro double_hyphen_append) simp_all
    then show ?thesis using Some by simp
  next
    case None
    show ?thesis
    proof (cases "c = CHR ''-'' \<and> d = CHR ''-''")
      case True
      have eq: "sentinel_pass (c # d # cs) = '' <HYPHENS> '' @ sentinel_pass cs"
        using None True by simp
      have "\<not> sublist ''--'' ('' <HYPHENS> '' @ sentinel_pass cs)"
        using "3.IH"(1) [OF None True]
        by (intro double_hyphen_append) (simp_all add: double_hyphen_Cons)
      then show ?thesis unfolding eq .
    next
      case False
      have eq: "sentinel_pass (c # d # cs) = c # sentinel_pass (d # cs)"
        using None False by auto
      have "c = CHR ''-'' \<Longrightarrow> hd (sentinel_pass (d # cs)) \<noteq> CHR ''-''"
        using False hd_sentinel_pass [of d cs] by simp
      then have "\<not> sublist ''--'' (c # sentinel_pass (d # cs))"
        using "3.IH"(2) [OF None False] by (auto simp: double_hyphen_Cons)
      then show ?thesis unfolding eq .
    qed
  qed
qed

lemma sentinel_pass_no_punctuation: "set (sentinel_pass t) \<inter> punctuation = {}"
proof (induction t rule: sentinel_pass.induct)
  case 1
  then show ?case by simp
next
  case (2 c)
  then show ?case
    using sentinel_None [of c] sentinel_Some(4) [of c]
    by (cases "sentinel c") auto
next
  case (3 c d cs)
  show ?case
  proof (cases "sentinel c")
    case (Some s)
    then show ?thesis
      using "3.IH"(3) [OF Some] sentinel_Some(4) [OF Some] by (simp add: Int_Un_distrib2)
  next
    case None
    show ?thesis
    proof (cases "c = CHR ''-'' \<and> d = CHR ''-''")
      case True
      have eq: "sentinel_pass (c # d # cs) = '' <HYPHENS> '' @ sentinel_pass cs"
        using None True by simp
      have "set '' <HYPHENS> '' \<inter> punctuation = {}" by (simp add: punctuation_def)
      then have "set ('' <HYPHENS> '' @ sentinel_pass cs) \<inter> punctuation = {}"
        using "3.IH"(1) [OF None True] unfolding set_append Int_Un_distrib2 by (simp only:) simp
      then show ?thesis unfolding eq .
    next
      case False
      then show ?thesis
        using None "3.IH"(2) [OF None False] sentinel_None [OF None] by auto
    qed
  qed
qed

lemma split_words_sublist:
  "tok \<in> set (split_words cur t) \<Longrightarrow> sublist tok (cur @ t)"
proof (induction t arbitrary: cur)
  case Nil
  then show ?case by (simp split: if_splits)
next
  case (Cons c cs)
  show ?case
  proof (cases "is_space c")
    case True
    then consider "tok = cur" | "tok \<in> set (split_words [] cs)"
      using Cons.prems by (auto split: if_splits)
    then show ?thesis
    proof cases
      case 1
      then show ?thesis by simp
    next
      case 2
      then have "sublist tok cs" using Cons.IH [of "[]"] by simp
      then obtain ps ss where "cs = ps @ tok @ ss" by (auto simp: sublist_def)
      then have "cur @ c # cs = (cur @ c # ps) @ tok @ ss" by simp
      then show ?thesis unfolding sublist_def by blast
    qed
  next
    case False
    then have "tok \<in> set (split_words (cur @ [c]) cs)" using Cons.prems by simp
    then have "sublist tok ((cur @ [c]) @ cs)" by (rule Cons.IH)
    then show ?thesis by simp
  qed
qed

lemma sublist_chain:
  assumes "sublist xs ys" "sublist ys zs"
  shows "sublist xs zs"
proof -
  from assms obtain p1 s1 p2 s2 where "ys = p1 @ xs @ s1" "zs = p2 @ ys @ s2"
    by (auto simp: sublist_def)
  then have "zs = (p2 @ p1) @ xs @ (s1 @ s2)" by simp
  then show ?thesis unfolding sublist_def by blast
qed

lemma split_sublist: "tok \<in> set (split t) \<Longrightarrow> sublist tok t"
  using split_words_sublist [of tok "[]" t] by (simp add: split_def)

lemma preprocess_subset: "set (preprocess t) \<subseteq> set (tokenize t)"
  by (auto simp: preprocess_def Let_def)

text \<open>
  Claim C7. \<open>preprocess\<close> replaces each occurrence of a period, comma, double quotation mark,
  semicolon, exclamation mark, question mark, left or right parenthesis, double hyphen and
  colon by its sentinel token surrounded by spaces before it splits (the chain of
  \<^verbatim>\<open>replace\<close> calls is the one-pass replacement \<open>sentinel_pass\<close>), so no returned token contains
  any of the nine punctuation characters, nor a double hyphen.
\<close>

theorem preprocess_replaces_punctuation:
  "replace_punctuation text = sentinel_pass (lower text)
   \<and> (\<forall>tok \<in> set (preprocess text). set tok \<inter> punctuation = {} \<and> \<not> sublist ''--'' tok)"
proof -
  have pass: "replace_punctuation text = sentinel_pass (lower text)"
    by (simp only: replace_punctuation_split late_single_is_pass)
  have "set tok \<inter> punctuation = {} \<and> \<not> sublist ''--'' tok"
    if "tok \<in> set (preprocess text)" for tok
  proof -
    from that have "tok \<in> set (split (sentinel_pass (lower text)))"
      using preprocess_subset [of "text"] by (auto simp: tokenize_def pass)
    then have sub: "sublist tok (sentinel_pass (lower text))" by (rule split_sublist)
    then have "set tok \<subseteq> set (sentinel_pass (lower text))" by (rule set_mono_sublist)
    then have "set tok \<inter> punctuation = {}"
      using sentinel_pass_no_punctuation [of "lower text"] by blast
    moreover have "\<not> sublist ''--'' tok"
      using sub sentinel_pass_no_hyphens [of "lower text"] sublist_chain by blast
    ultimately show ?thesis ..
  qed
  with pass show ?thesis by blast
qed

theorem preprocess_replaces_punctuation_witness:
  "''<PERIOD>'' \<in> set (preprocess ''A. a. A. a. A. a.'')
   \<and> replace_punctuation ''A. a. A. a. A. a.'' = sentinel_pass (lower ''A. a. A. a. A. a.'')
   \<and> set ''<PERIOD>'' \<inter> punctuation = {} \<and> \<not> sublist ''--'' ''<PERIOD>''"
proof -
  have run: "preprocess ''A. a. A. a. A. a.''
    = [''a'', ''<PERIOD>'', ''a'', ''<PERIOD>'', ''a'', ''<PERIOD>'',
       ''a'', ''<PERIOD>'', ''a'', ''<PERIOD>'', ''a'', ''<PERIOD>'']"
    by code_simp
  then have m: "''<PERIOD>'' \<in> set (preprocess ''A. a. A. a. A. a.'')" by simp
  show ?thesis
    using preprocess_replaces_punctuation [of "''A. a. A. a. A. a.''"] m by blast
qed

section \<open>Claims about the subsampler\<close>

lemma traverse_map:
  "(\<And>x. x \<in> set xs \<Longrightarrow> f x = Inr (g x)) \<Longrightarrow> traverse f xs = Inr (map g xs)"
  by (induction xs) simp_all

lemma keep_words_subseq:
  assumes "\<And>w. w \<in> set ws \<Longrightarrow> \<exists>p. dict_get pd w = Inr p"
  shows "\<exists>out. keep_words pd u k ws = Inr out \<and> subseq out ws"
  using assms
proof (induction ws arbitrary: k)
  case Nil
  then show ?case by simp
next
  case (Cons w ws)
  obtain p where p: "dict_get pd w = Inr p" using Cons.prems [of w] by auto
  obtain rest where rest: "keep_words pd u (Suc k) ws = Inr rest" "subseq rest ws"
    using Cons.IH [of "Suc k"] Cons.prems by auto
  show ?case using p rest by (auto intro: list_emb_Cons)
qed

lemma subseq_count_list:
  "subseq xs ys \<Longrightarrow> count_list xs w \<le> count_list ys w"
  by (induction rule: list_emb.induct) simp_all

lemma count_list_pos: "w \<in> set ws \<Longrightarrow> 0 < count_list ws w"
  by (metis count_list_0_iff gr0I)

lemma map_of_Counter:
  "w \<in> set ws \<Longrightarrow> map_of (Counter ws) w = Some (count_list ws w)"
proof -
  assume "w \<in> set ws"
  then have "w \<in> fst ` set (Counter ws)" using keys_Counter [of ws] by simp
  then obtain c where c: "map_of (Counter ws) w = Some c"
    by (metis domD dom_map_of_conv_image_fst)
  then have "counter_get (Counter ws) w = c" by (simp add: counter_get_def)
  then show ?thesis using c by (simp add: counter_get_Counter)
qed

text \<open>
  Claim C9. For every input list and every outcome of the random draws the subsampler
  returns (no exception is raised), and \<open>train_words\<close> is a subsequence of \<open>int_words\<close>: the
  retained tokens keep their relative order, no token occurs more often in the output than in
  the input, and no value absent from the input appears.
\<close>

theorem subsample_subsequence:
  "\<exists>train_words. subsample int_words u = Inr train_words
      \<and> subseq train_words int_words
      \<and> count_list train_words w \<le> count_list int_words w
      \<and> set train_words \<subseteq> set int_words"
proof -
  let ?n = "real (length int_words)"
  let ?freq = "\<lambda>(word, count). (word, real count / ?n)"
  let ?drop = "\<lambda>word. (word, 1 - sqrt (threshold / (real (count_list int_words word) / ?n)))"
  let ?keys = "map fst (Counter int_words)"
  have keys: "set ?keys = set int_words" by (rule keys_Counter)
  have pos: "0 < ?n" if "x \<in> set int_words" for x
    using that by (cases int_words) simp_all
  have frequency:
    "traverse (\<lambda>(word, count). case truediv (real count) ?n of
                 Inl e \<Rightarrow> Inl e | Inr f \<Rightarrow> Inr (word, f)) (Counter int_words)
     = Inr (map ?freq (Counter int_words))"
  proof (rule traverse_map)
    fix x assume x: "x \<in> set (Counter int_words)"
    then have "fst x \<in> set int_words" using keys by force
    then have "?n \<noteq> 0" using pos by force
    then show "(case x of (word, count) \<Rightarrow> case truediv (real count) ?n of
                 Inl e \<Rightarrow> Inl e | Inr f \<Rightarrow> Inr (word, f)) = Inr (?freq x)"
      by (simp add: truediv_def case_prod_unfold)
  qed
  have "distinct (map fst (map ?freq (Counter int_words)))"
    using distinct_Counter [of int_words] by (simp add: comp_def case_prod_unfold)
  then have dict_freq: "dict_of (map ?freq (Counter int_words)) = map ?freq (Counter int_words)"
    by (rule dict_of_distinct)
  have p_drop:
    "traverse (\<lambda>word. case dict_get (map ?freq (Counter int_words)) word of
                 Inl e \<Rightarrow> Inl e
               | Inr f \<Rightarrow> (case truediv threshold f of
                            Inl e \<Rightarrow> Inl e | Inr q \<Rightarrow> Inr (word, 1 - sqrt q))) ?keys
     = Inr (map ?drop ?keys)"
  proof (rule traverse_map)
    fix word assume "word \<in> set ?keys"
    then have mem: "word \<in> set int_words" using keys by simp
    have "map_of (map ?freq (Counter int_words)) word
          = map_option (\<lambda>c. real c / ?n) (map_of (Counter int_words) word)"
      by (simp add: map_of_map)
    then have get: "dict_get (map ?freq (Counter int_words)) word
                    = Inr (real (count_list int_words word) / ?n)"
      by (simp add: dict_get_def map_of_Counter [OF mem])
    have "real (count_list int_words word) / ?n \<noteq> 0"
      using count_list_pos [OF mem] pos [OF mem] by simp
    then show "(case dict_get (map ?freq (Counter int_words)) word of
                 Inl e \<Rightarrow> Inl e
               | Inr f \<Rightarrow> (case truediv threshold f of
                            Inl e \<Rightarrow> Inl e | Inr q \<Rightarrow> Inr (word, 1 - sqrt q))) = Inr (?drop word)"
      by (simp add: get truediv_def)
  qed
  have "distinct (map fst (map ?drop ?keys))"
    using distinct_Counter [of int_words] by (simp add: comp_def)
  then have dict: "dict_of (map ?drop ?keys) = map ?drop ?keys" by (rule dict_of_distinct)
  have run: "subsample int_words u = keep_words (map ?drop ?keys) u 0 int_words"
    unfolding subsample_def Let_def by (simp only: frequency dict_freq p_drop dict sum.case)
  have "\<exists>p. dict_get (map ?drop ?keys) x = Inr p" if "x \<in> set int_words" for x
  proof -
    have "x \<in> fst ` set (map ?drop ?keys)" using that keys by force
    then obtain p where "map_of (map ?drop ?keys) x = Some p"
      by (metis domD dom_map_of_conv_image_fst)
    then show ?thesis by (simp add: dict_get_def)
  qed
  then obtain out where out: "keep_words (map ?drop ?keys) u 0 int_words = Inr out"
    "subseq out int_words"
    using keep_words_subseq [of int_words "map ?drop ?keys" u 0] by blast
  have "count_list out w \<le> count_list int_words w"
    using out(2) by (rule subseq_count_list)
  moreover have "set out \<subseteq> set int_words"
    using out(2) by (auto dest: list_emb_set)
  ultimately show ?thesis using run out by auto
qed

end
